theory Spec2Isabelle
  imports Main "HOL-Library.Word"
begin

unbundle bit_operations_syntax

section \<open>Data model\<close>

text \<open>
  A Python \<open>bytes\<close> object is a list of 8-bit words; indexing it yields a Python integer
  in \<open>0..255\<close>, read here with \<open>uint\<close>. Python integers are unbounded and are
  modelled by \<open>int\<close>; buffer positions start at 0 and only grow, so they are \<open>nat\<close>.
\<close>

type_synonym byte = "8 word"
type_synonym buffer = "byte list"

text \<open>
  The exceptions the decoder can raise:
  \<^item> \<open>IndexError\<close>: \<open>buffer[pos]\<close> with \<open>pos\<close> beyond the last byte;
  \<^item> \<open>StructError\<close>: \<open>struct.error\<close> of \<open>struct.pack\<close> (value out of range) and of
    \<open>struct.unpack_from\<close> (too few bytes after the offset);
  \<^item> \<open>NotEnoughBytes requested left\<close>: the \<open>ValueError\<close> of \<open>_check_byte\<close>;
  \<^item> \<open>UnsupportedWireType w\<close>: the \<open>ValueError\<close> of \<open>decode_field\<close>;
  \<^item> \<open>TooManyValuesToUnpack\<close>: the \<open>ValueError\<close> of an unpacking assignment whose
    right-hand side holds more values than there are targets;
  \<^item> \<open>NegativeShiftCount\<close>: the \<open>ValueError\<close> of \<open>n >> k\<close> with \<open>k < 0\<close>.
\<close>

datatype error =
    IndexError
  | StructError
  | NotEnoughBytes nat int
  | UnsupportedWireType int
  | TooManyValuesToUnpack
  | NegativeShiftCount

text \<open>
  The value of a candidate interpretation. A Python float obtained by
  \<open>struct.unpack('<f', ...)\<close> or \<open>struct.unpack('<d', ...)\<close> is carried by the IEEE-754
  bit pattern it was read from.
\<close>

datatype scalar = IntV int | FloatV "32 word" | DoubleV "64 word"

text \<open>The dictionary \<open>{"type": ..., "value": ...}\<close> of one candidate.\<close>

record candidate =
  cand_type :: string
  cand_value :: scalar

text \<open>
  The dictionary \<open>field_info\<close> built by \<open>decode_field\<close>, and the content under its key
  \<open>"Content"\<close>: a list of candidates for the scalar wire types, or the dictionary
  \<open>{"type": ..., "value": ..., "hex": ...}\<close> of \<open>decode_length_delimited\<close>, whose
  \<open>"type"\<close> is \<open>"string"\<close> (value: the decoded text, a list of code points),
  \<open>"protobuf"\<close> (value: the nested list of field records) or \<open>"bytes"\<close> (value: a hex
  dump). The last argument of these three constructors is the entry \<open>"hex"\<close>.
\<close>

datatype field_info =
  Field_Info (Byte_Range: string) (Field_Number: int) (Type: string)
    (Original_Hex: string) (Content: content)
and content =
    Candidates "candidate list"
  | String_Content "nat list" string
  | Protobuf_Content "field_info list" string
  | Bytes_Content string string

section \<open>Formatting\<close>

definition hex_digit :: "nat \<Rightarrow> char" where
  "hex_digit n = ''0123456789abcdef'' ! n"

text \<open>\<open>f'{byte:02x}'\<close>: two lower-case hexadecimal digits.\<close>

definition hex_byte :: "byte \<Rightarrow> string" where
  "hex_byte b = [hex_digit (unat b div 16), hex_digit (unat b mod 16)]"

text \<open>\<open>sep.join(parts)\<close>.\<close>

fun join :: "string \<Rightarrow> string list \<Rightarrow> string" where
  "join sep [] = []"
| "join sep [x] = x"
| "join sep (x # y # ys) = x @ sep @ join sep (y # ys)"

definition buffer_to_pretty_hex :: "buffer \<Rightarrow> string" where
  "buffer_to_pretty_hex buf = join '' '' (map hex_byte buf)"

text \<open>The decimal rendering of a non-negative integer in an f-string.\<close>

fun str_nat :: "nat \<Rightarrow> string" where
  "str_nat n =
     (if n < 10 then [hex_digit n] else str_nat (n div 10) @ [hex_digit (n mod 10)])"

declare str_nat.simps [simp del]

text \<open>\<open>f"{a}-{b}"\<close>.\<close>

definition byte_range_str :: "nat \<Rightarrow> nat \<Rightarrow> string" where
  "byte_range_str a b = str_nat a @ ''-'' @ str_nat b"

definition wire_type_to_string :: "int \<Rightarrow> string" where
  "wire_type_to_string wire_type =
     (if wire_type = 0 then ''varint''
      else if wire_type = 1 then ''fixed64''
      else if wire_type = 2 then ''length_delimited''
      else if wire_type = 5 then ''fixed32''
      else ''unknown'')"

section \<open>Slices and the struct module\<close>

text \<open>
  \<open>buffer[a:b]\<close> for \<open>0 \<le> a\<close> and \<open>0 \<le> b\<close>: Python clips a slice to the sequence and
  never raises.
\<close>

definition slice :: "'a list \<Rightarrow> nat \<Rightarrow> nat \<Rightarrow> 'a list" where
  "slice xs a b = take (b - a) (drop a xs)"

text \<open>The unsigned value of a little-endian byte string.\<close>

fun le_value :: "byte list \<Rightarrow> int" where
  "le_value [] = 0"
| "le_value (b # bs) = uint b + 256 * le_value bs"

text \<open>The \<open>n\<close> low bytes of an integer, least significant first.\<close>

fun le_bytes :: "nat \<Rightarrow> int \<Rightarrow> byte list" where
  "le_bytes 0 v = []"
| "le_bytes (Suc n) v = word_of_int v # le_bytes n (v div 256)"

text \<open>
  \<open>struct.pack('<I', v)\<close> and \<open>struct.pack('<Q', v)\<close>: four or eight bytes, least
  significant first; \<open>struct.error\<close> when \<open>v\<close> is outside the unsigned range.
\<close>

definition struct_pack_I :: "int \<Rightarrow> error + byte list" where
  "struct_pack_I v =
     (if 0 \<le> v \<and> v < 2 ^ 32 then Inr (le_bytes 4 v) else Inl StructError)"

definition struct_pack_Q :: "int \<Rightarrow> error + byte list" where
  "struct_pack_Q v =
     (if 0 \<le> v \<and> v < 2 ^ 64 then Inr (le_bytes 8 v) else Inl StructError)"

text \<open>
  \<open>struct.unpack('<i', bs)[0]\<close> and \<open>struct.unpack('<q', bs)[0]\<close> on the four or eight
  bytes produced by \<open>struct.pack\<close>: the two's-complement reading.
\<close>

definition struct_unpack_i :: "byte list \<Rightarrow> int" where
  "struct_unpack_i bs =
     (if 2 ^ 31 \<le> le_value bs then le_value bs - 2 ^ 32 else le_value bs)"

definition struct_unpack_q :: "byte list \<Rightarrow> int" where
  "struct_unpack_q bs =
     (if 2 ^ 63 \<le> le_value bs then le_value bs - 2 ^ 64 else le_value bs)"

text \<open>\<open>struct.unpack('<f', bs)[0]\<close> and \<open>struct.unpack('<d', bs)[0]\<close>.\<close>

definition struct_unpack_f :: "byte list \<Rightarrow> scalar" where
  "struct_unpack_f bs = FloatV (word_of_int (le_value bs))"

definition struct_unpack_d :: "byte list \<Rightarrow> scalar" where
  "struct_unpack_d bs = DoubleV (word_of_int (le_value bs))"

text \<open>
  \<open>struct.unpack_from(fmt, buffer, pos)[0]\<close> for the formats \<open>'<I'\<close> (\<open>n = 4\<close>) and
  \<open>'<Q'\<close> (\<open>n = 8\<close>), and for \<open>'>I'\<close>: \<open>struct.error\<close> unless \<open>n\<close> bytes follow the
  offset.
\<close>

definition unpack_from_le :: "nat \<Rightarrow> buffer \<Rightarrow> nat \<Rightarrow> error + int" where
  "unpack_from_le n buf pos =
     (if pos + n \<le> length buf then Inr (le_value (take n (drop pos buf)))
      else Inl StructError)"

definition unpack_from_be :: "nat \<Rightarrow> buffer \<Rightarrow> nat \<Rightarrow> error + int" where
  "unpack_from_be n buf pos =
     (if pos + n \<le> length buf then Inr (le_value (rev (take n (drop pos buf))))
      else Inl StructError)"

section \<open>UTF-8\<close>

text \<open>
  \<open>bytes.decode('utf-8')\<close> of the Python standard library, in its default strict mode: the
  list of code points when the bytes are well-formed UTF-8 (no overlong forms, no
  surrogates, nothing above U+10FFFF), \<open>None\<close> where Python raises
  \<open>UnicodeDecodeError\<close>.
\<close>

definition cont_byte :: "byte \<Rightarrow> bool" where
  "cont_byte b \<longleftrightarrow> 0x80 \<le> b \<and> b \<le> 0xBF"

definition cont_bits :: "byte \<Rightarrow> nat" where
  "cont_bits b = unat (b AND 0x3F)"

fun utf8_decode :: "byte list \<Rightarrow> nat list option" where
  "utf8_decode [] = Some []"
| "utf8_decode (b0 # bs) =
     (if b0 \<le> 0x7F then map_option (Cons (unat b0)) (utf8_decode bs)
      else if 0xC2 \<le> b0 \<and> b0 \<le> 0xDF then
        (case bs of
           b1 # r \<Rightarrow>
             if cont_byte b1
             then map_option (Cons (unat (b0 AND 0x1F) * 64 + cont_bits b1)) (utf8_decode r)
             else None
         | _ \<Rightarrow> None)
      else if 0xE0 \<le> b0 \<and> b0 \<le> 0xEF then
        (case bs of
           b1 # b2 # r \<Rightarrow>
             if cont_byte b1 \<and> cont_byte b2
                \<and> (b0 = 0xE0 \<longrightarrow> 0xA0 \<le> b1) \<and> (b0 = 0xED \<longrightarrow> b1 \<le> 0x9F)
             then map_option
                    (Cons (unat (b0 AND 0x0F) * 4096 + cont_bits b1 * 64 + cont_bits b2))
                    (utf8_decode r)
             else None
         | _ \<Rightarrow> None)
      else if 0xF0 \<le> b0 \<and> b0 \<le> 0xF4 then
        (case bs of
           b1 # b2 # b3 # r \<Rightarrow>
             if cont_byte b1 \<and> cont_byte b2 \<and> cont_byte b3
                \<and> (b0 = 0xF0 \<longrightarrow> 0x90 \<le> b1) \<and> (b0 = 0xF4 \<longrightarrow> b1 \<le> 0x8F)
             then map_option
                    (Cons (unat (b0 AND 0x07) * 262144 + cont_bits b1 * 4096
                           + cont_bits b2 * 64 + cont_bits b3))
                    (utf8_decode r)
             else None
         | _ \<Rightarrow> None)
      else None)"

section \<open>The byte cursor\<close>

text \<open>
  \<open>_decode_varint(buffer, pos)\<close>: the \<open>while True\<close> loop, with \<open>shift\<close> and \<open>result\<close> as
  loop variables. \<open>buffer[pos]\<close> raises \<open>IndexError\<close> at the end of the buffer, which is
  the only way the loop ends on an unterminated varint.
\<close>

function varint_loop :: "buffer \<Rightarrow> nat \<Rightarrow> nat \<Rightarrow> int \<Rightarrow> error + (int \<times> nat)" where
  "varint_loop buf pos shift result =
     (if pos < length buf then
        (if (buf ! pos) AND 0x80 = 0
         then Inr (result OR push_bit shift (uint ((buf ! pos) AND 0x7F)), pos + 1)
         else varint_loop buf (pos + 1) (shift + 7)
                (result OR push_bit shift (uint ((buf ! pos) AND 0x7F))))
      else Inl IndexError)"
  by pat_completeness auto
termination
  by (relation "measure (\<lambda>(buf, pos, shift, result). length buf - pos)") auto

declare varint_loop.simps [simp del]

text \<open>The result \<open>(result, pos, (start_pos, pos))\<close> of \<open>_decode_varint\<close>.\<close>

definition decode_varint :: "buffer \<Rightarrow> nat \<Rightarrow> error + (int \<times> nat \<times> (nat \<times> nat))" where
  "decode_varint buf pos =
     (case varint_loop buf pos 0 0 of
        Inl e \<Rightarrow> Inl e
      | Inr (result, pos') \<Rightarrow> Inr (result, pos', (pos, pos')))"

record BufferReader =
  buffer :: buffer
  offset :: nat
  saved_offset :: nat

definition init_reader :: "buffer \<Rightarrow> BufferReader" where
  "init_reader b = \<lparr>buffer = b, offset = 0, saved_offset = 0\<rparr>"

text \<open>
  \<open>read_varint\<close>: \<open>value, self.offset = self._decode_varint(self.buffer, self.offset)\<close>.
  \<open>_decode_varint\<close> returns the three values \<open>(result, pos, (start_pos, pos))\<close> and the
  assignment has two targets, so whenever \<open>_decode_varint\<close> returns, the unpacking raises
  \<open>ValueError\<close> before either target is assigned: no value is returned and the offset
  stays as it was. An \<open>IndexError\<close> of \<open>_decode_varint\<close> passes through.
\<close>

definition read_varint :: "BufferReader \<Rightarrow> error + (int \<times> BufferReader)" where
  "read_varint self =
     (case decode_varint (buffer self) (offset self) of
        Inl e \<Rightarrow> Inl e
      | Inr (result, pos', rng) \<Rightarrow> Inl TooManyValuesToUnpack)"

definition left_bytes :: "BufferReader \<Rightarrow> int" where
  "left_bytes self = int (length (buffer self)) - int (offset self)"

definition check_byte :: "BufferReader \<Rightarrow> nat \<Rightarrow> error + unit" where
  "check_byte self len =
     (if int len > left_bytes self then Inl (NotEnoughBytes len (left_bytes self))
      else Inr ())"

definition read_buffer :: "BufferReader \<Rightarrow> nat \<Rightarrow> error + (buffer \<times> BufferReader)" where
  "read_buffer self len =
     (case check_byte self len of
        Inl e \<Rightarrow> Inl e
      | Inr _ \<Rightarrow>
          Inr (slice (buffer self) (offset self) (offset self + len),
               self\<lparr>offset := offset self + len\<rparr>))"

definition checkpoint :: "BufferReader \<Rightarrow> BufferReader" where
  "checkpoint self = self\<lparr>saved_offset := offset self\<rparr>"

definition reset_to_checkpoint :: "BufferReader \<Rightarrow> BufferReader" where
  "reset_to_checkpoint self = self\<lparr>offset := saved_offset self\<rparr>"

text \<open>
  \<open>try_skip_grpc_header\<close>. The condition reads \<open>self.buffer[self.offset]\<close> before it asks
  for \<open>left_bytes\<close>, so the index is evaluated first.
\<close>

definition try_skip_grpc_header :: "BufferReader \<Rightarrow> error + BufferReader" where
  "try_skip_grpc_header self =
     (if offset self < length (buffer self) then
        (if buffer self ! offset self = 0 \<and> left_bytes self \<ge> 5 then
           (case unpack_from_be 4 (buffer self) (offset self + 1) of
              Inl e \<Rightarrow> Inl e
            | Inr len \<Rightarrow>
                (if len > left_bytes (self\<lparr>offset := offset self + 1 + 4\<rparr>)
                 then Inr (self\<lparr>offset := offset self\<rparr>)
                 else Inr (self\<lparr>offset := offset self + 1 + 4\<rparr>)))
         else Inr self)
      else Inl IndexError)"

section \<open>The scalar reinterpreter\<close>

definition interpret_as_signed_type :: "int \<Rightarrow> int" where
  "interpret_as_signed_type n =
     (if n AND 1 = 0 then drop_bit 1 n else - drop_bit 1 (n + 1))"

text \<open>
  \<open>interpret_as_twos_complement(n, bits)\<close>; \<open>n >> (bits - 1)\<close> raises \<open>ValueError\<close> when
  \<open>bits - 1\<close> is negative.
\<close>

definition interpret_as_twos_complement :: "int \<Rightarrow> int \<Rightarrow> error + int" where
  "interpret_as_twos_complement n bits =
     (if bits - 1 < 0 then Inl NegativeShiftCount
      else if drop_bit (nat (bits - 1)) n AND 1 \<noteq> 0 then Inr (n - push_bit (nat bits) 1)
      else Inr n)"

definition decode_varint_parts :: "int \<Rightarrow> error + candidate list" where
  "decode_varint_parts v =
     (case struct_pack_I (v AND 0xFFFFFFFF) of
        Inl e \<Rightarrow> Inl e
      | Inr b32 \<Rightarrow>
     (case struct_pack_Q (v AND 0xFFFFFFFFFFFFFFFF) of
        Inl e \<Rightarrow> Inl e
      | Inr b64 \<Rightarrow>
          Inr ([\<lparr>cand_type = ''uint'', cand_value = IntV v\<rparr>]
               @ (if struct_unpack_i b32 \<noteq> v
                  then [\<lparr>cand_type = ''int32'', cand_value = IntV (struct_unpack_i b32)\<rparr>]
                  else [])
               @ (if struct_unpack_q b64 \<noteq> v
                  then [\<lparr>cand_type = ''int64'', cand_value = IntV (struct_unpack_q b64)\<rparr>]
                  else [])
               @ (if interpret_as_signed_type v \<noteq> v
                  then [\<lparr>cand_type = ''sint'', cand_value = IntV (interpret_as_signed_type v)\<rparr>]
                  else []))))"

definition decode_fixed32 :: "int \<Rightarrow> error + candidate list" where
  "decode_fixed32 v =
     (case struct_pack_I v of
        Inl e \<Rightarrow> Inl e
      | Inr bs \<Rightarrow>
          Inr [\<lparr>cand_type = ''float'', cand_value = struct_unpack_f bs\<rparr>,
               \<lparr>cand_type = ''int'', cand_value = IntV v\<rparr>])"

definition decode_fixed64 :: "int \<Rightarrow> error + candidate list" where
  "decode_fixed64 v =
     (case struct_pack_Q v of
        Inl e \<Rightarrow> Inl e
      | Inr bs \<Rightarrow>
          Inr [\<lparr>cand_type = ''double'', cand_value = struct_unpack_d bs\<rparr>,
               \<lparr>cand_type = ''int'', cand_value = IntV v\<rparr>])"

section \<open>The field and message decoders\<close>

text \<open>A varint that is read ends after its start and inside the buffer.\<close>

lemma varint_loop_pos: "varint_loop b pos sh r = Inr (v, p) \<Longrightarrow> pos < p \<and> p \<le> length b"
proof (induction b pos sh r rule: varint_loop.induct)
  case (1 buf pos shift result)
  then show ?case
    by (subst (asm) (2) varint_loop.simps) (auto split: if_splits)
qed

lemma decode_varint_pos:
  "decode_varint b pos = Inr (v, p, rng) \<Longrightarrow> pos < p \<and> p \<le> length b \<and> rng = (pos, p)"
  by (auto simp: decode_varint_def split: sum.splits dest: varint_loop_pos)

text \<open>
  \<open>decode_length_delimited\<close>, \<open>decode_field\<close> and the \<open>while pos < len(buffer)\<close> loop of
  \<open>decode_protobuf\<close> call one another: the loop decodes fields, a length-delimited field
  classifies its payload, and the classifier calls \<open>decode_protobuf\<close> on the payload
  slice when the payload is not UTF-8. The \<open>try\<close> blocks of the classifier are the case
  distinctions on \<open>utf8_decode\<close> (\<open>except UnicodeDecodeError\<close>) and on the nested decode
  (\<open>except Exception\<close>, which catches every error value of this model). The slice
  \<open>buffer[pos:pos + length]\<close> is taken with no bounds check, and \<open>pos\<close> advances by the
  declared length whatever the slice holds.
\<close>

function decode_length_delimited :: "buffer \<Rightarrow> nat \<Rightarrow> error + (content \<times> nat)"
  and decode_field :: "buffer \<Rightarrow> nat \<Rightarrow> error + (field_info \<times> nat)"
  and decode_protobuf_loop :: "buffer \<Rightarrow> nat \<Rightarrow> field_info list \<Rightarrow> error + field_info list"
where
  "decode_length_delimited buf pos =
     (case decode_varint buf pos of
        Inl e \<Rightarrow> Inl e
      | Inr (len, pos1, _) \<Rightarrow>
          (case utf8_decode (slice buf pos1 (pos1 + nat len)) of
             Some result_str \<Rightarrow>
               Inr (String_Content result_str
                      (buffer_to_pretty_hex (slice buf pos1 (pos1 + nat len))),
                    pos1 + nat len)
           | None \<Rightarrow>
               (case decode_protobuf_loop (slice buf pos1 (pos1 + nat len)) 0 [] of
                  Inr nested_message \<Rightarrow>
                    Inr (Protobuf_Content nested_message
                           (buffer_to_pretty_hex (slice buf pos1 (pos1 + nat len))),
                         pos1 + nat len)
                | Inl _ \<Rightarrow>
                    Inr (Bytes_Content
                           (buffer_to_pretty_hex (slice buf pos1 (pos1 + nat len)))
                           (buffer_to_pretty_hex (slice buf pos1 (pos1 + nat len))),
                         pos1 + nat len))))"
| "decode_field buf pos =
     (case decode_varint buf pos of
        Inl e \<Rightarrow> Inl e
      | Inr (key, pos1, key_range) \<Rightarrow>
          (case
             (if key AND 0x07 = 0 then
                (case decode_varint buf pos1 of
                   Inl e \<Rightarrow> Inl e
                 | Inr (v, pos2, value_range) \<Rightarrow>
                     (case decode_varint_parts v of
                        Inl e \<Rightarrow> Inl e
                      | Inr parts \<Rightarrow> Inr (Candidates parts, pos2, value_range)))
              else if key AND 0x07 = 1 then
                (case unpack_from_le 8 buf pos1 of
                   Inl e \<Rightarrow> Inl e
                 | Inr v \<Rightarrow>
                     (case decode_fixed64 v of
                        Inl e \<Rightarrow> Inl e
                      | Inr parts \<Rightarrow> Inr (Candidates parts, pos1 + 8, (pos1, pos1 + 8))))
              else if key AND 0x07 = 2 then
                (case decode_length_delimited buf pos1 of
                   Inl e \<Rightarrow> Inl e
                 | Inr (v, pos2) \<Rightarrow> Inr (v, pos2, (pos1, pos2)))
              else if key AND 0x07 = 5 then
                (case unpack_from_le 4 buf pos1 of
                   Inl e \<Rightarrow> Inl e
                 | Inr v \<Rightarrow>
                     (case decode_fixed32 v of
                        Inl e \<Rightarrow> Inl e
                      | Inr parts \<Rightarrow> Inr (Candidates parts, pos1 + 4, (pos1, pos1 + 4))))
              else Inl (UnsupportedWireType (key AND 0x07)))
           of
             Inl e \<Rightarrow> Inl e
           | Inr (v, pos2, value_range) \<Rightarrow>
               Inr (Field_Info (byte_range_str (fst key_range) (snd value_range))
                      (drop_bit 3 key)
                      (wire_type_to_string (key AND 0x07))
                      (buffer_to_pretty_hex (slice buf (fst key_range) pos1))
                      v,
                    pos2)))"
| "decode_protobuf_loop buf pos decoded_message =
     (if pos < length buf then
        (case decode_field buf pos of
           Inl e \<Rightarrow> Inl e
         | Inr (field_info, pos') \<Rightarrow>
             decode_protobuf_loop buf pos' (decoded_message @ [field_info]))
      else Inr decoded_message)"
  by pat_completeness auto


lemma decode_pos_partial:
  "decode_length_delimited_decode_field_decode_protobuf_loop_dom (Inl (b, p)) \<Longrightarrow>
     (\<forall>c q. decode_length_delimited b p = Inr (c, q) \<longrightarrow> p < q)"
  "decode_length_delimited_decode_field_decode_protobuf_loop_dom (Inr (Inl (b', p'))) \<Longrightarrow>
     (\<forall>r q. decode_field b' p' = Inr (r, q) \<longrightarrow> p' < q)"
  "decode_length_delimited_decode_field_decode_protobuf_loop_dom (Inr (Inr (b'', p'', acc))) \<Longrightarrow> True"
proof (induct rule: decode_length_delimited_decode_field_decode_protobuf_loop.pinduct)
  case (1 buf pos)
  then show ?case
    by (auto simp: decode_length_delimited.psimps split: sum.splits option.splits prod.splits
             dest!: decode_varint_pos)
next
  case (2 buf pos)
  note dom = 2(1) and IH = 2(2)
  show ?case
  proof (intro allI impI)
    fix r q assume a: "decode_field buf pos = Inr (r, q)"
    from a dom obtain key pos1 kr where kv: "decode_varint buf pos = Inr (key, pos1, kr)"
      by (cases "decode_varint buf pos") (auto simp: decode_field.psimps)
    then have p1: "pos < pos1" by (auto dest: decode_varint_pos)
    consider "key AND 7 = 0" | "key AND 7 = 1" | "key AND 7 = 2" | "key AND 7 = 5"
      | "key AND 7 \<noteq> 0" "key AND 7 \<noteq> 1" "key AND 7 \<noteq> 2" "key AND 7 \<noteq> 5"
      by blast
    then have "pos1 \<le> q"
    proof cases
      case 1
      with a dom kv show ?thesis
        by (auto simp: decode_field.psimps split: sum.splits dest!: decode_varint_pos)
    next
      case 2
      with a dom kv show ?thesis
        by (auto simp: decode_field.psimps split: sum.splits)
    next
      case 3
      with a dom kv obtain c where "decode_length_delimited buf pos1 = Inr (c, q)"
        by (auto simp: decode_field.psimps split: sum.splits)
      with IH [OF kv refl refl] 3 show ?thesis by auto
    next
      case 4
      with a dom kv show ?thesis
        by (auto simp: decode_field.psimps split: sum.splits)
    next
      case 5
      with a dom kv show ?thesis
        by (auto simp: decode_field.psimps split: sum.splits)
    qed
    with p1 show "pos < q" by simp
  qed
next
  case (3 buf pos decoded_message)
  show ?case by simp
qed

termination decode_length_delimited
proof (relation "measures
     [\<lambda>x. case x of Inl (b, p) \<Rightarrow> length b | Inr (Inl (b, p)) \<Rightarrow> length b
                      | Inr (Inr (b, p, acc)) \<Rightarrow> length b,
      \<lambda>x. case x of Inl _ \<Rightarrow> 0 | Inr (Inl _) \<Rightarrow> 1 | Inr (Inr _) \<Rightarrow> 2,
      \<lambda>x. case x of Inr (Inr (b, p, acc)) \<Rightarrow> length b - p | _ \<Rightarrow> 0]", goal_cases)
  case 1
  show ?case by simp
next
  case (2 buf pos b x y xa ya)
  then have "decode_varint buf pos = Inr (x, xa, ya)" by simp
  then have "pos < xa" "xa \<le> length buf" by (auto dest: decode_varint_pos)
  then show ?case by (simp add: slice_def)
next
  case (3 buf pos b x y xa ya)
  then show ?case by simp
next
  case (4 buf pos decoded_message)
  then show ?case by simp
next
  case (5 buf pos decoded_message b x y)
  then have "pos < y" using decode_pos_partial(2) [of buf pos] by auto
  with 5 show ?case by simp
qed

declare decode_length_delimited.simps [simp del]
declare decode_field.simps [simp del]
declare decode_protobuf_loop.simps [simp del]

definition decode_protobuf :: "buffer \<Rightarrow> error + field_info list" where
  "decode_protobuf buf = decode_protobuf_loop buf 0 []"

section \<open>Specification of a varint\<close>

text \<open>
  The specification's reading of a varint, independent of the loop: of each byte keep the
  low seven bits and combine them by bitwise or, the \<open>i\<close>-th byte shifted by \<open>7 * i\<close>.
  A byte string is one well-formed varint when every byte but the last has its high bit
  set and the last has it clear.
\<close>

fun leb128_value :: "byte list \<Rightarrow> nat \<Rightarrow> int" where
  "leb128_value [] shift = 0"
| "leb128_value (b # bs) shift =
     push_bit shift (uint (b AND 0x7F)) OR leb128_value bs (shift + 7)"

fun is_varint :: "byte list \<Rightarrow> bool" where
  "is_varint [] = False"
| "is_varint [b] = (b AND 0x80 = 0)"
| "is_varint (b # bs) = (b AND 0x80 \<noteq> 0 \<and> is_varint bs)"

section \<open>Where a field record lies\<close>

text \<open>
  A record \<open>r\<close> lies in a buffer when decoding one field at some offset \<open>s\<close> inside that
  buffer yields exactly \<open>r\<close>, the field ends at an offset \<open>e\<close> that is not past the end of
  the buffer, and the byte range of \<open>r\<close> is \<open>s\<close> together with \<open>e\<close>.
\<close>

definition located :: "buffer \<Rightarrow> field_info \<Rightarrow> bool" where
  "located buf r =
     list_ex (\<lambda>s. case decode_field buf s of
                     Inl _ \<Rightarrow> False
                   | Inr (r', e) \<Rightarrow>
                       r' = r \<and> Byte_Range r = byte_range_str s e \<and> e \<le> length buf)
       [0..<length buf]"

text \<open>
  The loop of \<open>decode_protobuf\<close>, started at \<open>pos\<close>, stops exactly at the end of the buffer:
  every field decodes and the last one ends at \<open>length buf\<close>.
\<close>

inductive reaches_end :: "buffer \<Rightarrow> nat \<Rightarrow> bool" for buf :: buffer where
  at_end: "reaches_end buf (length buf)"
| field_then: "pos < length buf \<Longrightarrow> decode_field buf pos = Inr (r, e) \<Longrightarrow>
     reaches_end buf e \<Longrightarrow> reaches_end buf pos"

text \<open>
  The offsets at which the loop of \<open>decode_protobuf\<close> on \<open>buf\<close> starts a field: offset 0,
  and the end of every field that was decoded before the end of the buffer.
\<close>

inductive field_start :: "buffer \<Rightarrow> nat \<Rightarrow> bool" for buf :: buffer where
  first_field: "field_start buf 0"
| next_field: "field_start buf pos \<Longrightarrow> pos < length buf \<Longrightarrow>
     decode_field buf pos = Inr (r, pos') \<Longrightarrow> field_start buf pos'"

section \<open>Properties of the scalar reinterpreter\<close>

text \<open>The bytes written by \<open>struct.pack\<close> read back as the value modulo the width.\<close>

lemma le_value_le_bytes: "le_value (le_bytes n v) = v mod 256 ^ n"
proof (induction n arbitrary: v)
  case 0
  show ?case by simp
next
  case (Suc n)
  have "v mod (256 * 256 ^ n) = 256 * (v div 256 mod 256 ^ n) + v mod 256"
    by (rule zmod_zmult2_eq) simp
  with Suc show ?case by (simp add: uint_word_of_int)
qed

lemma and_mask32: "(v::int) AND 0xFFFFFFFF = v mod 2 ^ 32"
proof -
  have "(0xFFFFFFFF::int) = mask 32" by (simp add: mask_eq_exp_minus_1)
  then have "v AND 0xFFFFFFFF = take_bit 32 v" by (simp only: take_bit_eq_mask)
  then show ?thesis by (simp only: take_bit_eq_mod)
qed

lemma and_mask64: "(v::int) AND 0xFFFFFFFFFFFFFFFF = v mod 2 ^ 64"
proof -
  have "(0xFFFFFFFFFFFFFFFF::int) = mask 64" by (simp add: mask_eq_exp_minus_1)
  then have "v AND 0xFFFFFFFFFFFFFFFF = take_bit 64 v" by (simp only: take_bit_eq_mask)
  then show ?thesis by (simp only: take_bit_eq_mod)
qed

lemma signed_of_mod:
  fixes x h :: int
  assumes h: "0 < h"
  shows "(x + h) mod (2 * h) - h = (if h \<le> x mod (2 * h) then x mod (2 * h) - 2 * h else x mod (2 * h))"
proof -
  define m where "m = x mod (2 * h)"
  have m: "0 \<le> m" "m < 2 * h" using h by (simp_all add: m_def)
  have e: "(x + h) mod (2 * h) = (m + h) mod (2 * h)"
    unfolding m_def by (simp add: mod_add_left_eq)
  show ?thesis
  proof (cases "h \<le> m")
    case True
    have "(m + h) mod (2 * h) = (m + h - 2 * h) mod (2 * h)"
      by (metis mod_diff_right_eq mod_self diff_zero)
    also have "\<dots> = m + h - 2 * h" using True m by (intro mod_pos_pos_trivial) auto
    finally show ?thesis using True e by (simp add: m_def [symmetric])
  next
    case False
    then have "(m + h) mod (2 * h) = m + h" using m by (intro mod_pos_pos_trivial) auto
    then show ?thesis using False e by (simp add: m_def [symmetric])
  qed
qed

lemma sint32_mod:
  "sint (word_of_int v :: 32 word) =
     (if 2 ^ 31 \<le> v mod 2 ^ 32 then v mod 2 ^ 32 - 2 ^ 32 else v mod 2 ^ 32)"
  using signed_of_mod [of "2 ^ 31" v] by (simp add: int_word_sint)

lemma sint64_mod:
  "sint (word_of_int v :: 64 word) =
     (if 2 ^ 63 \<le> v mod 2 ^ 64 then v mod 2 ^ 64 - 2 ^ 64 else v mod 2 ^ 64)"
  using signed_of_mod [of "2 ^ 63" v] by (simp add: int_word_sint)

lemma zigzag: "interpret_as_signed_type n = (if even n then n div 2 else - ((n + 1) div 2))"
  by (simp add: interpret_as_signed_type_def drop_bit_eq_div and_one_eq mod_2_eq_odd)


lemma pack_I_mask:
  "\<exists>bs. struct_pack_I (v AND 0xFFFFFFFF) = Inr bs
        \<and> struct_unpack_i bs = sint (word_of_int v :: 32 word)"
proof -
  define w where "w = v mod 2 ^ 32"
  have w: "0 \<le> w" "w < 2 ^ 32" by (simp_all add: w_def)
  have "le_value (le_bytes 4 w) = w mod 2 ^ 32"
    using le_value_le_bytes [of 4 w] by simp
  also have "\<dots> = w" using w by (intro mod_pos_pos_trivial)
  finally have lv: "le_value (le_bytes 4 w) = w" .
  have p: "struct_pack_I (v AND 0xFFFFFFFF) = Inr (le_bytes 4 w)"
    unfolding and_mask32 w_def [symmetric] struct_pack_I_def using w by simp
  have "struct_unpack_i (le_bytes 4 w) = sint (word_of_int v :: 32 word)"
    using lv unfolding w_def by (simp add: struct_unpack_i_def sint32_mod)
  with p show ?thesis by blast
qed

lemma pack_Q_mask:
  "\<exists>bs. struct_pack_Q (v AND 0xFFFFFFFFFFFFFFFF) = Inr bs
        \<and> struct_unpack_q bs = sint (word_of_int v :: 64 word)"
proof -
  define w where "w = v mod 2 ^ 64"
  have w: "0 \<le> w" "w < 2 ^ 64" by (simp_all add: w_def)
  have "le_value (le_bytes 8 w) = w mod 2 ^ 64"
    using le_value_le_bytes [of 8 w] by simp
  also have "\<dots> = w" using w by (intro mod_pos_pos_trivial)
  finally have lv: "le_value (le_bytes 8 w) = w" .
  have p: "struct_pack_Q (v AND 0xFFFFFFFFFFFFFFFF) = Inr (le_bytes 8 w)"
    unfolding and_mask64 w_def [symmetric] struct_pack_Q_def using w by simp
  have "struct_unpack_q (le_bytes 8 w) = sint (word_of_int v :: 64 word)"
    using lv unfolding w_def by (simp add: struct_unpack_q_def sint64_mod)
  with p show ?thesis by blast
qed

text \<open>
  Claim C3. For every value \<open>v\<close> decoded from a varint payload, the candidate list starts
  with the \<open>uint\<close> candidate \<open>v\<close>; the \<open>int32\<close> candidate (the two's-complement reading of
  the low 32 bits), the \<open>int64\<close> candidate (the two's-complement reading of the low 64
  bits) and the \<open>sint\<close> candidate (zig-zag: \<open>v div 2\<close> for even \<open>v\<close>, else
  \<open>- ((v + 1) div 2)\<close>) are each present exactly when their value differs from \<open>v\<close>; and
  the candidates present stand in the order uint, int32, int64, sint. The packing and
  unpacking through four and eight bytes never fails.
\<close>

theorem decode_varint_parts_candidates:
  "decode_varint_parts v =
     Inr ([\<lparr>cand_type = ''uint'', cand_value = IntV v\<rparr>]
          @ (if sint (word_of_int v :: 32 word) \<noteq> v
             then [\<lparr>cand_type = ''int32'', cand_value = IntV (sint (word_of_int v :: 32 word))\<rparr>]
             else [])
          @ (if sint (word_of_int v :: 64 word) \<noteq> v
             then [\<lparr>cand_type = ''int64'', cand_value = IntV (sint (word_of_int v :: 64 word))\<rparr>]
             else [])
          @ (if (if even v then v div 2 else - ((v + 1) div 2)) \<noteq> v
             then [\<lparr>cand_type = ''sint'',
                    cand_value = IntV (if even v then v div 2 else - ((v + 1) div 2))\<rparr>]
             else []))"
proof -
  obtain b32 where b32: "struct_pack_I (v AND 0xFFFFFFFF) = Inr b32"
    "struct_unpack_i b32 = sint (word_of_int v :: 32 word)"
    using pack_I_mask by blast
  obtain b64 where b64: "struct_pack_Q (v AND 0xFFFFFFFFFFFFFFFF) = Inr b64"
    "struct_unpack_q b64 = sint (word_of_int v :: 64 word)"
    using pack_Q_mask by blast
  show ?thesis
    by (simp add: decode_varint_parts_def b32 b64 zigzag)
qed

theorem decode_varint_parts_candidates_witness:
  "decode_varint_parts 4294967295 =
     Inr [\<lparr>cand_type = ''uint'', cand_value = IntV 4294967295\<rparr>,
          \<lparr>cand_type = ''int32'', cand_value = IntV (- 1)\<rparr>,
          \<lparr>cand_type = ''sint'', cand_value = IntV (- 2147483648)\<rparr>]"
  using decode_varint_parts_candidates [of 4294967295] by simp

lemma pack_I_range:
  "0 \<le> v \<Longrightarrow> v < 2 ^ 32 \<Longrightarrow>
   \<exists>bs. struct_pack_I v = Inr bs \<and> le_value bs = v"
  using le_value_le_bytes [of 4 v] by (simp add: struct_pack_I_def)

lemma pack_Q_range:
  "0 \<le> v \<Longrightarrow> v < 2 ^ 64 \<Longrightarrow>
   \<exists>bs. struct_pack_Q v = Inr bs \<and> le_value bs = v"
  using le_value_le_bytes [of 8 v] by (simp add: struct_pack_Q_def)

text \<open>Every value read by \<open>struct.unpack_from\<close> is in the unsigned range of its width.\<close>

lemma le_value_range: "0 \<le> le_value bs \<and> le_value bs < 256 ^ length bs"
proof (induction bs)
  case Nil
  show ?case by simp
next
  case (Cons b bs)
  have "uint b < 256" using uint_lt2p [of b] by simp
  with Cons show ?case by simp
qed

lemma unpack_from_le_range:
  "unpack_from_le n buf pos = Inr v \<Longrightarrow> 0 \<le> v \<and> v < 256 ^ n"
  using le_value_range [of "take n (drop pos buf)"]
  by (auto simp: unpack_from_le_def split: if_splits)

text \<open>
  Claim C10. For every raw unsigned value of a fixed32 (fixed64) payload, the candidate
  list has exactly two entries: first the float (double) whose IEEE-754 bit pattern is the
  raw value, then the raw unsigned integer; both are present whatever their values.
\<close>

theorem decode_fixed_candidates:
  "(0 \<le> v \<and> v < 2 ^ 32 \<longrightarrow>
      decode_fixed32 v =
        Inr [\<lparr>cand_type = ''float'', cand_value = FloatV (word_of_int v)\<rparr>,
             \<lparr>cand_type = ''int'', cand_value = IntV v\<rparr>])
   \<and> (0 \<le> v \<and> v < 2 ^ 64 \<longrightarrow>
      decode_fixed64 v =
        Inr [\<lparr>cand_type = ''double'', cand_value = DoubleV (word_of_int v)\<rparr>,
             \<lparr>cand_type = ''int'', cand_value = IntV v\<rparr>])"
proof (intro conjI impI)
  assume "0 \<le> v \<and> v < 2 ^ 32"
  then obtain bs where "struct_pack_I v = Inr bs" "le_value bs = v"
    using pack_I_range by blast
  then show "decode_fixed32 v =
        Inr [\<lparr>cand_type = ''float'', cand_value = FloatV (word_of_int v)\<rparr>,
             \<lparr>cand_type = ''int'', cand_value = IntV v\<rparr>]"
    by (simp add: decode_fixed32_def struct_unpack_f_def)
next
  assume "0 \<le> v \<and> v < 2 ^ 64"
  then obtain bs where "struct_pack_Q v = Inr bs" "le_value bs = v"
    using pack_Q_range by blast
  then show "decode_fixed64 v =
        Inr [\<lparr>cand_type = ''double'', cand_value = DoubleV (word_of_int v)\<rparr>,
             \<lparr>cand_type = ''int'', cand_value = IntV v\<rparr>]"
    by (simp add: decode_fixed64_def struct_unpack_d_def)
qed

theorem decode_fixed_candidates_witness:
  "decode_fixed32 0 =
        Inr [\<lparr>cand_type = ''float'', cand_value = FloatV 0\<rparr>,
             \<lparr>cand_type = ''int'', cand_value = IntV 0\<rparr>]
   \<and> decode_fixed64 0 =
        Inr [\<lparr>cand_type = ''double'', cand_value = DoubleV 0\<rparr>,
             \<lparr>cand_type = ''int'', cand_value = IntV 0\<rparr>]"
  using decode_fixed_candidates [of 0] by simp

section \<open>Properties of the byte cursor\<close>

lemma varint_loop_leb128:
  "is_varint bs \<Longrightarrow> drop pos buf = bs @ rest \<Longrightarrow>
   varint_loop buf pos shift result = Inr (result OR leb128_value bs shift, pos + length bs)"
proof (induction bs arbitrary: pos shift result rule: is_varint.induct)
  case 1
  then show ?case by simp
next
  case (2 b)
  from 2(2) have "pos < length buf" "buf ! pos = b"
    by (metis append_Cons drop_eq_Nil2 linorder_not_le list.distinct(1),
        metis append_Cons nth_via_drop)
  with 2(1) show ?case by (subst varint_loop.simps) simp
next
  case (3 b c bs)
  from 3(3) have p: "pos < length buf" "buf ! pos = b"
    by (metis append_Cons drop_eq_Nil2 linorder_not_le list.distinct(1),
        metis append_Cons nth_via_drop)
  from 3(3) have d: "drop (pos + 1) buf = (c # bs) @ rest"
    by (metis Cons_nth_drop_Suc Suc_eq_plus1 append_Cons list.inject p(1))
  from 3(2) have hb: "b AND 0x80 \<noteq> 0" and v: "is_varint (c # bs)" by simp_all
  show ?case
    using p hb 3(1) [OF v d, of "shift + 7" "result OR push_bit shift (uint (b AND 0x7F))"]
    by (subst varint_loop.simps) (simp add: or.assoc)
qed

text \<open>
  The static method \<open>_decode_varint\<close> computes the value of a well-formed varint that lies
  inside the buffer (low seven bits of each byte, combined by or at shifts 0, 7, 14, ...)
  and the offset just past it.
\<close>

lemma decode_varint_leb128:
  assumes "is_varint bs" and "drop pos buf = bs @ rest"
  shows "decode_varint buf pos =
     Inr (leb128_value bs 0, pos + length bs, (pos, pos + length bs))"
  using varint_loop_leb128 [OF assms, of 0 0] by (simp add: decode_varint_def)

text \<open>
  Claim C9. \<open>read_varint\<close> is claimed to return the value of a well-formed in-bounds varint
  at the cursor and to move the offset just past it. The method unpacks the three values
  returned by \<open>_decode_varint\<close> into two targets: on the buffer \<open>96 01 08\<close>, whose first two
  bytes are the varint 150, it raises \<open>ValueError\<close>, returns nothing and leaves the offset
  at 0.
\<close>

theorem read_varint_raises_on_well_formed_varint:
  "read_varint \<lparr>buffer = [0x96, 0x01, 0x08], offset = 0, saved_offset = 0\<rparr>
     = Inl TooManyValuesToUnpack"
  using decode_varint_leb128 [of "[0x96, 0x01]" 0 "[0x96, 0x01, 0x08]" "[0x08]"]
  by (simp add: read_varint_def)

text \<open>
  The same holds at every well-formed varint, and \<open>read_varint\<close> returns on no reader at
  all; the callers \<open>decode_field\<close> and \<open>decode_length_delimited\<close> unpack three values and
  are not affected.
\<close>

lemma read_varint_well_formed:
  assumes "is_varint bs" and "drop (offset self) (buffer self) = bs @ rest"
  shows "read_varint self = Inl TooManyValuesToUnpack"
  by (simp add: read_varint_def decode_varint_leb128 [OF assms])

lemma read_varint_never_returns: "read_varint self \<noteq> Inr x"
  by (auto simp: read_varint_def split: sum.splits)

text \<open>
  Claim C8. \<open>try_skip_grpc_header\<close> is claimed never to fail, also on an empty buffer or
  with the cursor at the end. The condition indexes the buffer before it compares
  \<open>left_bytes\<close>, so on an empty buffer the method raises \<open>IndexError\<close>.
\<close>

theorem try_skip_grpc_header_empty_buffer:
  "try_skip_grpc_header \<lparr>buffer = [], offset = 0, saved_offset = 0\<rparr> = Inl IndexError"
  by (simp add: try_skip_grpc_header_def)

text \<open>
  The same holds wherever the cursor stands at or past the end; with the cursor inside the
  buffer the method behaves as described: it skips five bytes exactly when the flag byte
  is 0, five bytes remain and the big-endian length fits the rest, and otherwise leaves
  the reader as it was.
\<close>

lemma try_skip_grpc_header_at_end:
  "length (buffer self) \<le> offset self \<Longrightarrow> try_skip_grpc_header self = Inl IndexError"
  by (simp add: try_skip_grpc_header_def)

lemma try_skip_grpc_header_in_bounds:
  assumes "offset self < length (buffer self)"
  shows "try_skip_grpc_header self =
     Inr (if buffer self ! offset self = 0 \<and> offset self + 5 \<le> length (buffer self)
             \<and> le_value (rev (take 4 (drop (offset self + 1) (buffer self))))
                 \<le> int (length (buffer self)) - int (offset self + 5)
          then self\<lparr>offset := offset self + 5\<rparr> else self)"
  using assms
  by (auto simp: try_skip_grpc_header_def left_bytes_def unpack_from_be_def)

section \<open>Properties of the field and message decoders\<close>

text \<open>What a successful \<open>decode_field\<close> has read, branch by branch.\<close>

lemma decode_field_result:
  assumes "decode_field buf pos = Inr (r, e)"
  obtains key pos1 c where
    "decode_varint buf pos = Inr (key, pos1, (pos, pos1))"
    "r = Field_Info (byte_range_str pos e) (drop_bit 3 key) (wire_type_to_string (key AND 7))
           (buffer_to_pretty_hex (slice buf pos pos1)) c"
    "(key AND 7 = 0 \<and> (\<exists>v vr parts. decode_varint buf pos1 = Inr (v, e, vr)
          \<and> decode_varint_parts v = Inr parts \<and> c = Candidates parts))
     \<or> (key AND 7 = 1 \<and> (\<exists>v parts. unpack_from_le 8 buf pos1 = Inr v
          \<and> decode_fixed64 v = Inr parts \<and> c = Candidates parts \<and> e = pos1 + 8))
     \<or> (key AND 7 = 2 \<and> decode_length_delimited buf pos1 = Inr (c, e))
     \<or> (key AND 7 = 5 \<and> (\<exists>v parts. unpack_from_le 4 buf pos1 = Inr v
          \<and> decode_fixed32 v = Inr parts \<and> c = Candidates parts \<and> e = pos1 + 4))"
proof -
  from assms obtain key pos1 kr where kv: "decode_varint buf pos = Inr (key, pos1, kr)"
    by (cases "decode_varint buf pos") (auto simp: decode_field.simps)
  then have kr: "kr = (pos, pos1)" by (auto dest: decode_varint_pos)
  consider "key AND 7 = 0" | "key AND 7 = 1" | "key AND 7 = 2" | "key AND 7 = 5"
    | "key AND 7 \<noteq> 0" "key AND 7 \<noteq> 1" "key AND 7 \<noteq> 2" "key AND 7 \<noteq> 5"
    by blast
  then show ?thesis
  proof cases
    case 1
    with assms kv kr show ?thesis
      by (intro that [of key pos1 "Content r"])
         (auto simp: decode_field.simps split: sum.splits dest!: decode_varint_pos)
  next
    case 2
    with assms kv kr show ?thesis
      by (intro that [of key pos1 "Content r"]) (auto simp: decode_field.simps split: sum.splits)
  next
    case 3
    with assms kv kr show ?thesis
      by (intro that [of key pos1 "Content r"]) (auto simp: decode_field.simps split: sum.splits)
  next
    case 4
    with assms kv kr show ?thesis
      by (intro that [of key pos1 "Content r"]) (auto simp: decode_field.simps split: sum.splits)
  next
    case 5
    with assms kv show ?thesis
      by (auto simp: decode_field.simps split: sum.splits)
  qed
qed

text \<open>
  Once the length varint is read, \<open>decode_length_delimited\<close> always returns: a string for
  UTF-8 bytes, else the nested message if the payload decodes, else its hex dump.
\<close>

lemma decode_length_delimited_eq:
  assumes "decode_varint buf pos = Inr (len, pos1, rng)"
  shows "decode_length_delimited buf pos =
     Inr (case utf8_decode (slice buf pos1 (pos1 + nat len)) of
            Some result_str \<Rightarrow>
              String_Content result_str
                (buffer_to_pretty_hex (slice buf pos1 (pos1 + nat len)))
          | None \<Rightarrow>
              (case decode_protobuf (slice buf pos1 (pos1 + nat len)) of
                 Inr nested_message \<Rightarrow>
                   Protobuf_Content nested_message
                     (buffer_to_pretty_hex (slice buf pos1 (pos1 + nat len)))
               | Inl _ \<Rightarrow>
                   Bytes_Content (buffer_to_pretty_hex (slice buf pos1 (pos1 + nat len)))
                     (buffer_to_pretty_hex (slice buf pos1 (pos1 + nat len)))),
          pos1 + nat len)"
  using assms
  by (simp add: decode_length_delimited.simps decode_protobuf_def
           split: option.splits sum.splits)

text \<open>
  The tag of a decoded field ends strictly before the field does; the record's hex dump
  covers the tag, its byte range the whole field.
\<close>

lemma decode_field_span:
  assumes "decode_field buf pos = Inr (r, e)"
  shows "\<exists>key pos1. decode_varint buf pos = Inr (key, pos1, (pos, pos1)) \<and> pos1 < e
           \<and> Original_Hex r = buffer_to_pretty_hex (slice buf pos pos1)
           \<and> Byte_Range r = byte_range_str pos e"
proof -
  from assms obtain key pos1 c where
    kv: "decode_varint buf pos = Inr (key, pos1, (pos, pos1))" and
    r: "r = Field_Info (byte_range_str pos e) (drop_bit 3 key) (wire_type_to_string (key AND 7))
           (buffer_to_pretty_hex (slice buf pos pos1)) c" and
    cs: "(key AND 7 = 0 \<and> (\<exists>v vr parts. decode_varint buf pos1 = Inr (v, e, vr)
          \<and> decode_varint_parts v = Inr parts \<and> c = Candidates parts))
     \<or> (key AND 7 = 1 \<and> (\<exists>v parts. unpack_from_le 8 buf pos1 = Inr v
          \<and> decode_fixed64 v = Inr parts \<and> c = Candidates parts \<and> e = pos1 + 8))
     \<or> (key AND 7 = 2 \<and> decode_length_delimited buf pos1 = Inr (c, e))
     \<or> (key AND 7 = 5 \<and> (\<exists>v parts. unpack_from_le 4 buf pos1 = Inr v
          \<and> decode_fixed32 v = Inr parts \<and> c = Candidates parts \<and> e = pos1 + 4))"
    by (rule decode_field_result)
  have "pos1 < e"
    using cs
  proof (elim disjE conjE exE)
    fix v vr parts assume "decode_varint buf pos1 = Inr (v, e, vr)"
    then show ?thesis by (auto dest: decode_varint_pos)
  next
    assume "decode_length_delimited buf pos1 = Inr (c, e)"
    then show ?thesis
      by (cases "decode_varint buf pos1")
         (auto simp: decode_length_delimited.simps
               split: option.splits sum.splits dest!: decode_varint_pos)
  qed simp_all
  with kv r show ?thesis by simp
qed

lemma decode_field_advances:
  assumes "decode_field buf pos = Inr (r, e)"
  shows "pos < e"
  using decode_field_span [OF assms] by (auto dest: decode_varint_pos)

lemma located_iff:
  "located buf r \<longleftrightarrow>
     (\<exists>s e. s < length buf \<and> decode_field buf s = Inr (r, e)
            \<and> Byte_Range r = byte_range_str s e \<and> e \<le> length buf)"
proof
  assume "located buf r"
  then obtain s where s: "s < length buf"
    and c: "(case decode_field buf s of Inl _ \<Rightarrow> False
             | Inr (r', e) \<Rightarrow>
                 r' = r \<and> Byte_Range r = byte_range_str s e \<and> e \<le> length buf)"
    by (auto simp: located_def list_ex_iff)
  then show "\<exists>s e. s < length buf \<and> decode_field buf s = Inr (r, e)
            \<and> Byte_Range r = byte_range_str s e \<and> e \<le> length buf"
    by (cases "decode_field buf s") auto
next
  assume "\<exists>s e. s < length buf \<and> decode_field buf s = Inr (r, e)
            \<and> Byte_Range r = byte_range_str s e \<and> e \<le> length buf"
  then show "located buf r"
    by (auto simp: located_def list_ex_iff intro!: bexI)
qed

lemma reaches_end_le: "reaches_end buf pos \<Longrightarrow> pos \<le> length buf"
  by (induction rule: reaches_end.induct) simp_all

text \<open>
  When the loop stops exactly at the end of the buffer, every record it appends lies in
  the buffer the loop runs on.
\<close>

lemma loop_located:
  "decode_protobuf_loop buf pos acc = Inr rs \<Longrightarrow> reaches_end buf pos \<Longrightarrow>
   \<exists>new. rs = acc @ new \<and> (\<forall>r \<in> set new. located buf r)"
proof (induction "length buf - pos" arbitrary: pos acc rule: less_induct)
  case less
  show ?case
  proof (cases "pos < length buf")
    case False
    with less.prems show ?thesis by (simp add: decode_protobuf_loop.simps)
  next
    case True
    with less.prems(1) obtain r e where df: "decode_field buf pos = Inr (r, e)"
      and rest: "decode_protobuf_loop buf e (acc @ [r]) = Inr rs"
      by (subst (asm) decode_protobuf_loop.simps) (auto split: sum.splits)
    from less.prems(2) True df have re: "reaches_end buf e"
      by (cases rule: reaches_end.cases) auto
    from df have adv: "pos < e" by (rule decode_field_advances)
    from df have br: "Byte_Range r = byte_range_str pos e"
      by (rule decode_field_result) simp
    have loc: "located buf r"
      unfolding located_iff using True df br reaches_end_le [OF re] by blast
    from adv True have "length buf - e < length buf - pos" by simp
    from less.hyps [OF this rest re] obtain new where
      "rs = (acc @ [r]) @ new" "\<forall>r \<in> set new. located buf r" by blast
    with loc show ?thesis by (intro exI [of _ "r # new"]) simp
  qed
qed

lemma decode_protobuf_located:
  "decode_protobuf buf = Inr rs \<Longrightarrow> reaches_end buf 0 \<Longrightarrow> r \<in> set rs \<Longrightarrow> located buf r"
  using loop_located [of buf 0 "[]" rs] by (auto simp: decode_protobuf_def)

lemma field_start_loop:
  "field_start buf pos \<Longrightarrow> \<exists>acc. decode_protobuf buf = decode_protobuf_loop buf pos acc"
proof (induction rule: field_start.induct)
  case first_field
  show ?case by (auto simp: decode_protobuf_def)
next
  case (next_field pos r pos')
  then obtain acc where "decode_protobuf buf = decode_protobuf_loop buf pos acc" by blast
  with next_field(2,3) have "decode_protobuf buf = decode_protobuf_loop buf pos' (acc @ [r])"
    by (subst (asm) decode_protobuf_loop.simps) simp
  then show ?case by blast
qed

text \<open>
  Claim C1. A buffer with a length-delimited field whose declared length exceeds the bytes
  left after the length varint is claimed to make \<open>decode_protobuf\<close> fail and return no
  list. The slice \<open>buffer[pos:pos + length]\<close> is clipped without a check: for the bytes
  \<open>12 07 74 65\<close> (field 2, declared length 7, two payload bytes) the decoder returns a
  one-record list whose byte range \<open>0-9\<close> ends past the four-byte buffer.
\<close>

theorem truncated_payload_is_accepted:
  "decode_protobuf [0x12, 0x07, 0x74, 0x65] =
     Inr [Field_Info ''0-9'' 2 ''length_delimited'' ''12''
            (String_Content [116, 101] ''74 65'')]"
  by code_simp

text \<open>
  Claim C2. Whenever the payload of a length-delimited field is valid UTF-8, the classifier
  returns the string classification, with the decoded text and the hex dump of the
  payload, whatever \<open>decode_protobuf\<close> would make of the same bytes.
\<close>

theorem valid_utf8_classified_as_string:
  assumes "decode_varint buf pos = Inr (len, pos1, rng)"
    and "utf8_decode (slice buf pos1 (pos1 + nat len)) = Some text"
  shows "decode_length_delimited buf pos =
     Inr (String_Content text (buffer_to_pretty_hex (slice buf pos1 (pos1 + nat len))),
          pos1 + nat len)"
  using assms(2) by (simp add: decode_length_delimited_eq [OF assms(1)])

theorem valid_utf8_classified_as_string_witness:
  "decode_protobuf [0x08, 0x01] =
     Inr [Field_Info ''0-2'' 1 ''varint'' ''08''
            (Candidates [\<lparr>cand_type = ''uint'', cand_value = IntV 1\<rparr>,
                         \<lparr>cand_type = ''sint'', cand_value = IntV (- 1)\<rparr>])]
   \<and> decode_length_delimited [0x02, 0x08, 0x01] 0 = Inr (String_Content [8, 1] ''08 01'', 3)"
proof -
  have a: "decode_varint [0x02, 0x08, 0x01] 0 = Inr (2, 1, (0, 1))" by code_simp
  have b: "utf8_decode (slice [0x02, 0x08, 0x01 :: byte] 1 (1 + nat 2)) = Some [8, 1]"
    by code_simp
  have c: "buffer_to_pretty_hex (slice [0x02, 0x08, 0x01] 1 (1 + nat 2)) = ''08 01''"
    by code_simp
  have d: "decode_protobuf [0x08, 0x01] =
     Inr [Field_Info ''0-2'' 1 ''varint'' ''08''
            (Candidates [\<lparr>cand_type = ''uint'', cand_value = IntV 1\<rparr>,
                         \<lparr>cand_type = ''sint'', cand_value = IntV (- 1)\<rparr>])]"
    by code_simp
  from valid_utf8_classified_as_string [OF a b] c d show ?thesis by simp
qed

text \<open>
  Claim C4. The record's \<open>Original Hex\<close> is claimed to be the hex dump of all the bytes the
  field occupies. The slice for it is taken right after the tag is read, so it holds the
  tag bytes only: for \<open>08 96 01\<close> the record spans \<open>0-3\<close> and its hex dump is \<open>08\<close>, not
  \<open>08 96 01\<close>.
\<close>

theorem original_hex_holds_tag_only:
  "decode_protobuf [0x08, 0x96, 0x01] =
     Inr [Field_Info ''0-3'' 1 ''varint'' ''08''
            (Candidates [\<lparr>cand_type = ''uint'', cand_value = IntV 150\<rparr>,
                         \<lparr>cand_type = ''sint'', cand_value = IntV 75\<rparr>])]
   \<and> buffer_to_pretty_hex (slice [0x08, 0x96, 0x01] 0 3) = ''08 96 01''"
  by code_simp

text \<open>
  Claim C5, as stated: also the byte ranges of records of nested messages are offsets into
  the top-level buffer. For \<open>0a 03 08 96 01\<close> the nested record carries the range \<open>0-3\<close>,
  and no field of the top-level buffer decodes to that record.
\<close>

theorem nested_ranges_not_in_top_level_buffer:
  "decode_protobuf [0x0a, 0x03, 0x08, 0x96, 0x01] =
     Inr [Field_Info ''0-5'' 1 ''length_delimited'' ''0a''
            (Protobuf_Content
               [Field_Info ''0-3'' 1 ''varint'' ''08''
                  (Candidates [\<lparr>cand_type = ''uint'', cand_value = IntV 150\<rparr>,
                               \<lparr>cand_type = ''sint'', cand_value = IntV 75\<rparr>])]
               ''08 96 01'')]
   \<and> \<not> located [0x0a, 0x03, 0x08, 0x96, 0x01]
         (Field_Info ''0-3'' 1 ''varint'' ''08''
            (Candidates [\<lparr>cand_type = ''uint'', cand_value = IntV 150\<rparr>,
                         \<lparr>cand_type = ''sint'', cand_value = IntV 75\<rparr>]))"
  by code_simp

text \<open>
  Claim C5, amended. For a \<open>decode_protobuf\<close> call whose loop stops exactly at the end of
  its buffer, the byte range (start, end) of every record it produces denotes offsets
  \<open>start < end \<le> length\<close> into the buffer that was handed to that call: the top-level
  input for top-level records, and for the records of a nested message the payload
  slice, itself a range of the enclosing buffer, that was decoded recursively. A decode
  whose last field is a length-delimited field declared longer than the bytes that remain
  does not stop at the end of the buffer; nothing is stated about its ranges.
\<close>

theorem byte_ranges_relative_to_decoded_buffer:
  assumes "decode_protobuf buf = Inr rs" and "reaches_end buf 0" and "r \<in> set rs"
  shows "located buf r
     \<and> (\<forall>nested h. Content r = Protobuf_Content nested h \<longrightarrow>
          (\<exists>a b. a \<le> b \<and> b \<le> length buf
                 \<and> h = buffer_to_pretty_hex (slice buf a b)
                 \<and> decode_protobuf (slice buf a b) = Inr nested
                 \<and> (reaches_end (slice buf a b) 0 \<longrightarrow>
                      (\<forall>r' \<in> set nested. located (slice buf a b) r'))))"
proof (intro conjI allI impI)
  show loc: "located buf r" using assms by (rule decode_protobuf_located)
  fix nested h assume c: "Content r = Protobuf_Content nested h"
  from loc obtain s e where df: "decode_field buf s = Inr (r, e)" and e: "e \<le> length buf"
    unfolding located_iff by blast
  from df obtain key pos1 c' where
    r: "r = Field_Info (byte_range_str s e) (drop_bit 3 key) (wire_type_to_string (key AND 7))
           (buffer_to_pretty_hex (slice buf s pos1)) c'" and
    cs: "(key AND 7 = 0 \<and> (\<exists>v vr parts. decode_varint buf pos1 = Inr (v, e, vr)
          \<and> decode_varint_parts v = Inr parts \<and> c' = Candidates parts))
     \<or> (key AND 7 = 1 \<and> (\<exists>v parts. unpack_from_le 8 buf pos1 = Inr v
          \<and> decode_fixed64 v = Inr parts \<and> c' = Candidates parts \<and> e = pos1 + 8))
     \<or> (key AND 7 = 2 \<and> decode_length_delimited buf pos1 = Inr (c', e))
     \<or> (key AND 7 = 5 \<and> (\<exists>v parts. unpack_from_le 4 buf pos1 = Inr v
          \<and> decode_fixed32 v = Inr parts \<and> c' = Candidates parts \<and> e = pos1 + 4))"
    by (rule decode_field_result)
  from r c have c': "c' = Protobuf_Content nested h" by simp
  with cs have ld: "decode_length_delimited buf pos1 = Inr (Protobuf_Content nested h, e)"
    by auto
  then obtain len pos2 rng where dv: "decode_varint buf pos1 = Inr (len, pos2, rng)"
    by (cases "decode_varint buf pos1") (auto simp: decode_length_delimited.simps)
  from ld have n:
    "h = buffer_to_pretty_hex (slice buf pos2 (pos2 + nat len))"
    "decode_protobuf (slice buf pos2 (pos2 + nat len)) = Inr nested"
    "e = pos2 + nat len"
    unfolding decode_length_delimited_eq [OF dv]
    by (auto split: option.splits sum.splits)
  have "reaches_end (slice buf pos2 (pos2 + nat len)) 0 \<longrightarrow>
          (\<forall>r' \<in> set nested. located (slice buf pos2 (pos2 + nat len)) r')"
    using decode_protobuf_located [OF n(2)] by blast
  with n e show "\<exists>a b. a \<le> b \<and> b \<le> length buf
                 \<and> h = buffer_to_pretty_hex (slice buf a b)
                 \<and> decode_protobuf (slice buf a b) = Inr nested
                 \<and> (reaches_end (slice buf a b) 0 \<longrightarrow>
                      (\<forall>r' \<in> set nested. located (slice buf a b) r'))"
    by (intro exI [of _ pos2] exI [of _ "pos2 + nat len"]) simp
qed

theorem byte_ranges_relative_to_decoded_buffer_witness:
  "located [0x0a, 0x03, 0x08, 0x96, 0x01]
     (Field_Info ''0-5'' 1 ''length_delimited'' ''0a''
        (Protobuf_Content
           [Field_Info ''0-3'' 1 ''varint'' ''08''
              (Candidates [\<lparr>cand_type = ''uint'', cand_value = IntV 150\<rparr>,
                           \<lparr>cand_type = ''sint'', cand_value = IntV 75\<rparr>])]
           ''08 96 01''))
   \<and> (\<exists>a b. a \<le> b \<and> b \<le> 5
            \<and> decode_protobuf (slice [0x0a, 0x03, 0x08, 0x96, 0x01] a b) =
               Inr [Field_Info ''0-3'' 1 ''varint'' ''08''
                      (Candidates [\<lparr>cand_type = ''uint'', cand_value = IntV 150\<rparr>,
                                   \<lparr>cand_type = ''sint'', cand_value = IntV 75\<rparr>])])"
proof -
  have d: "decode_protobuf [0x0a, 0x03, 0x08, 0x96, 0x01] =
     Inr [Field_Info ''0-5'' 1 ''length_delimited'' ''0a''
            (Protobuf_Content
               [Field_Info ''0-3'' 1 ''varint'' ''08''
                  (Candidates [\<lparr>cand_type = ''uint'', cand_value = IntV 150\<rparr>,
                               \<lparr>cand_type = ''sint'', cand_value = IntV 75\<rparr>])]
               ''08 96 01'')]"
    by code_simp
  have f: "decode_field [0x0a, 0x03, 0x08, 0x96, 0x01] 0 =
     Inr (Field_Info ''0-5'' 1 ''length_delimited'' ''0a''
            (Protobuf_Content
               [Field_Info ''0-3'' 1 ''varint'' ''08''
                  (Candidates [\<lparr>cand_type = ''uint'', cand_value = IntV 150\<rparr>,
                               \<lparr>cand_type = ''sint'', cand_value = IntV 75\<rparr>])]
               ''08 96 01''), 5)"
    by code_simp
  have l: "length [0x0a, 0x03, 0x08, 0x96, 0x01 :: byte] = 5" by simp
  have e: "reaches_end [0x0a, 0x03, 0x08, 0x96, 0x01] 0"
    by (rule field_then [OF _ f at_end [of "[0x0a, 0x03, 0x08, 0x96, 0x01]", unfolded l]])
       simp
  from byte_ranges_relative_to_decoded_buffer [OF d e] show ?thesis by fastforce
qed



text \<open>
  Claim C7, as stated: an unsupported wire type anywhere aborts the decode of the enclosing
  top-level buffer. Inside a length-delimited payload the error is caught by the
  classifier: for \<open>0a 02 83 00\<close> the nested tag \<open>83 00\<close> has wire type 3, and the
  top-level decode returns a record with the bytes classification.
\<close>

theorem nested_unsupported_wire_type_is_caught:
  "decode_field (slice [0x0a, 0x02, 0x83, 0x00] 2 4) 0 = Inl (UnsupportedWireType 3)
   \<and> decode_protobuf [0x0a, 0x02, 0x83, 0x00] =
       Inr [Field_Info ''0-4'' 1 ''length_delimited'' ''0a''
              (Bytes_Content ''83 00'' ''83 00'')]"
  by code_simp

text \<open>
  Claim C7, amended. A tag whose low three bits are not 0, 1, 2 or 5 makes \<open>decode_field\<close>
  fail with the unsupported-wire-type error; when the field is one that the loop of
  \<open>decode_protobuf\<close> starts on the buffer itself, the whole decode fails with that error
  and returns no list.
\<close>

theorem unsupported_wire_type_aborts_top_level:
  assumes "decode_varint buf pos = Inr (key, pos1, rng)"
    and "key AND 7 \<noteq> 0" "key AND 7 \<noteq> 1" "key AND 7 \<noteq> 2" "key AND 7 \<noteq> 5"
  shows "decode_field buf pos = Inl (UnsupportedWireType (key AND 7))
     \<and> (field_start buf pos \<longrightarrow>
          decode_protobuf buf = Inl (UnsupportedWireType (key AND 7)))"
proof (intro conjI impI)
  show df: "decode_field buf pos = Inl (UnsupportedWireType (key AND 7))"
    using assms by (simp add: decode_field.simps)
  assume "field_start buf pos"
  then obtain acc where "decode_protobuf buf = decode_protobuf_loop buf pos acc"
    using field_start_loop by blast
  moreover from assms(1) have "pos < length buf" by (auto dest: decode_varint_pos)
  ultimately show "decode_protobuf buf = Inl (UnsupportedWireType (key AND 7))"
    using df by (subst (asm) decode_protobuf_loop.simps) simp
qed

theorem unsupported_wire_type_aborts_top_level_witness:
  "decode_field [0x08, 0x01, 0x0b] 2 = Inl (UnsupportedWireType 3)
   \<and> decode_protobuf [0x08, 0x01, 0x0b] = Inl (UnsupportedWireType 3)"
proof -
  have a: "decode_varint [0x08, 0x01, 0x0b] 2 = Inr (11, 3, (2, 3))" by code_simp
  have b: "decode_field [0x08, 0x01, 0x0b] 0 =
     Inr (Field_Info ''0-2'' 1 ''varint'' ''08''
            (Candidates [\<lparr>cand_type = ''uint'', cand_value = IntV 1\<rparr>,
                         \<lparr>cand_type = ''sint'', cand_value = IntV (- 1)\<rparr>]), 2)"
    by code_simp
  have s: "field_start [0x08, 0x01, 0x0b] 2"
    by (rule next_field [OF first_field _ b]) simp
  have w: "(11 :: int) AND 7 = 3" by simp
  from unsupported_wire_type_aborts_top_level [OF a] s show ?thesis by (simp add: w)
qed

end
